theory Spec2Isabelle
  imports Main "HOL-Library.Word" "HOL-Library.Multiset" "HOL-Library.Signed_Division"
begin

section \<open>The benchmark state handed to every body\<close>

text \<open>
  Every benchmark body of \<^verbatim>\<open>main.cxx\<close> receives a \<^verbatim>\<open>bm::State &state\<close>, runs
  its timed loop \<^verbatim>\<open>for (auto _ : state)\<close> on it, and may call
  \<^verbatim>\<open>state.PauseTiming()\<close>, \<^verbatim>\<open>state.ResumeTiming()\<close> and \<^verbatim>\<open>state.range(i)\<close>.
  The class belongs to the benchmark library, which the sources only include
  (\<^verbatim>\<open>#include <benchmark/benchmark.h>\<close>); what the bodies use of it is modelled
  below from the spec's Timing Session.
\<close>

datatype error = UsageError | DivisionByZero

datatype phase = Running | Paused

datatype call = Pause | Resume

text \<open>
  Modelled from the spec: the data of a Timing Session (the declaration of
  \<^verbatim>\<open>bm::State\<close> is missing from the sources). It holds the session's phase and
  accumulators, the monotonic clock it reads (\<open>clock s k\<close> is the \<open>k\<close>-th
  reading, \<open>reads s\<close> counts the readings taken so far, \<open>mark s\<close> is the reading
  of the last transition), the iteration count the harness chose for the run and
  the arguments of the registered instance, \<^verbatim>\<open>state.range(i)\<close>. \<open>trace\<close> is a log
  of the pause/resume calls the session accepted, kept only to state properties
  of the bodies. Clock readings are integer ticks.
\<close>

record State =
  phase :: phase
  elapsed_wall :: int
  paused_duration :: int
  mark :: int
  clock :: "nat \<Rightarrow> int"
  reads :: nat
  trace :: "call list"
  max_iterations :: nat
  range_arg :: "nat \<Rightarrow> 64 word"

text \<open>
  Modelled from the spec: the start of a Timing Session (the library's
  \<^verbatim>\<open>bm::State\<close> is missing from the sources). The session is created \<open>Running\<close>
  with empty accumulators, and takes the first clock reading as its start.
\<close>

definition start_session :: "(nat \<Rightarrow> int) \<Rightarrow> nat \<Rightarrow> (nat \<Rightarrow> 64 word) \<Rightarrow> State" where
  "start_session clk n args =
     \<lparr>phase = Running, elapsed_wall = 0, paused_duration = 0, mark = clk 0,
      clock = clk, reads = 1, trace = [], max_iterations = n, range_arg = args\<rparr>"

text \<open>
  Modelled from the spec: \<open>pause()\<close> (the library's \<^verbatim>\<open>State::PauseTiming\<close> is
  missing from the sources) is valid only in \<open>Running\<close>; it freezes the
  accumulation of elapsed time and moves to \<open>Paused\<close>; while already \<open>Paused\<close> it
  fails with a usage error.
\<close>

definition PauseTiming :: "State \<Rightarrow> error + State" where
  "PauseTiming s =
     (case phase s of
        Running \<Rightarrow>
          Inr (s\<lparr>phase := Paused,
                 elapsed_wall := elapsed_wall s + (clock s (reads s) - mark s),
                 mark := clock s (reads s),
                 reads := Suc (reads s),
                 trace := trace s @ [Pause]\<rparr>)
      | Paused \<Rightarrow> Inl UsageError)"

text \<open>
  Modelled from the spec: \<open>resume()\<close> (the library's \<^verbatim>\<open>State::ResumeTiming\<close> is
  missing from the sources) is valid only in \<open>Paused\<close>; it resumes the
  accumulation from the current time and moves to \<open>Running\<close>; while already
  \<open>Running\<close> it fails with a usage error.
\<close>

definition ResumeTiming :: "State \<Rightarrow> error + State" where
  "ResumeTiming s =
     (case phase s of
        Paused \<Rightarrow>
          Inr (s\<lparr>phase := Running,
                 paused_duration := paused_duration s + (clock s (reads s) - mark s),
                 mark := clock s (reads s),
                 reads := Suc (reads s),
                 trace := trace s @ [Resume]\<rparr>)
      | Running \<Rightarrow> Inl UsageError)"

text \<open>
  Modelled from the spec: the end of a Timing Session (missing from the sources
  with the rest of the library). A session that ends while still \<open>Paused\<close> is a
  usage error; otherwise the running interval that is still open is closed at
  the current clock reading and the accumulated elapsed time is reported.
\<close>

definition finish_session :: "State \<Rightarrow> error + int" where
  "finish_session s =
     (case phase s of
        Running \<Rightarrow> Inr (elapsed_wall s + (clock s (reads s) - mark s))
      | Paused \<Rightarrow> Inl UsageError)"

text \<open>
  The timed loop \<^verbatim>\<open>for (auto _ : state)\<close>: the body runs once per iteration,
  as many times as the harness chose, on the state and the body's local
  variables; an error of the body ends the run.
\<close>

fun timed_loop ::
  "nat \<Rightarrow> (State \<times> 'v \<Rightarrow> error + State \<times> 'v) \<Rightarrow> State \<times> 'v \<Rightarrow> error + State \<times> 'v"
where
  "timed_loop 0 body sv = Inr sv"
| "timed_loop (Suc n) body sv =
     (case body sv of
        Inl e \<Rightarrow> Inl e
      | Inr sv' \<Rightarrow> timed_loop n body sv')"

text \<open>
  Modelled from the spec: a whole run (the harness that calls the registered
  functions is missing from the sources). It starts the session, calls the
  benchmark function, and ends the session, reporting the elapsed time.
\<close>

definition run_benchmark ::
  "(State \<Rightarrow> error + State \<times> 'v) \<Rightarrow> (nat \<Rightarrow> int) \<Rightarrow> nat \<Rightarrow> (nat \<Rightarrow> 64 word) \<Rightarrow> error + int"
where
  "run_benchmark f clk n args =
     (case f (start_session clk n args) of
        Inl e \<Rightarrow> Inl e
      | Inr (s, v) \<Rightarrow> finish_session s)"

section \<open>Integer division\<close>

text \<open>
  \<^verbatim>\<open>int64_t a = std::rand(), b = std::rand(), c = 0;\<close> then, in the timed loop,
  \<^verbatim>\<open>bm::DoNotOptimize(c = (++a) / (++b));\<close>. The two results of \<^verbatim>\<open>std::rand()\<close>
  are \<^verbatim>\<open>int\<close> values and are widened with their sign. The increments wrap as the
  machine's do. \<^verbatim>\<open>/\<close> truncates towards zero; a zero divisor is the error
  \<open>DivisionByZero\<close>. \<^verbatim>\<open>DoNotOptimize\<close> changes no value.
\<close>

definition sdiv64 :: "64 word \<Rightarrow> 64 word \<Rightarrow> 64 word" where
  "sdiv64 x y = word_of_int (sint x sdiv sint y)"

definition i64_division_body ::
  "State \<times> 64 word \<times> 64 word \<times> 64 word \<Rightarrow> error + State \<times> 64 word \<times> 64 word \<times> 64 word"
where
  "i64_division_body = (\<lambda>(state, a, b, c).
     let a1 = a + 1; b1 = b + 1 in
     if b1 = 0 then Inl DivisionByZero
     else Inr (state, a1, b1, sdiv64 a1 b1))"

definition i64_division ::
  "32 word \<Rightarrow> 32 word \<Rightarrow> State \<Rightarrow> error + State \<times> 64 word \<times> 64 word \<times> 64 word"
where
  "i64_division rand_a rand_b state =
     timed_loop (max_iterations state) i64_division_body
       (state, scast rand_a, scast rand_b, 0)"

section \<open>Sorting, with and without the preprocessing timed\<close>

text \<open>
  \<^verbatim>\<open>std::vector<int32_t> array(count); std::iota(array.begin(), array.end(), 1);\<close>
\<close>

definition iota :: "nat \<Rightarrow> 32 word list" where
  "iota count' = map (\<lambda>i. 1 + of_nat i) [0..<count']"

text \<open>
  \<^verbatim>\<open>std::sort\<close> on \<^verbatim>\<open>int32_t\<close> orders by the signed value; \<^verbatim>\<open>std::reverse\<close> is
  \<open>rev\<close>.
\<close>

definition std_sort :: "32 word list \<Rightarrow> 32 word list" where
  "std_sort array = sort_key sint array"

text \<open>The loop body of \<^verbatim>\<open>sorting\<close>: the flag is a run-time value.\<close>

definition sorting_body ::
  "bool \<Rightarrow> State \<times> 32 word list \<Rightarrow> error + State \<times> 32 word list"
where
  "sorting_body include_preprocessing = (\<lambda>(state, array).
     case (if \<not> include_preprocessing then PauseTiming state else Inr state) of
       Inl e \<Rightarrow> Inl e
     | Inr state1 \<Rightarrow>
         let array1 = rev array in
         (case (if \<not> include_preprocessing then ResumeTiming state1 else Inr state1) of
            Inl e \<Rightarrow> Inl e
          | Inr state2 \<Rightarrow> Inr (state2, std_sort array1)))"

definition sorting :: "State \<Rightarrow> error + State \<times> 32 word list" where
  "sorting state =
     (let count' = unat (range_arg state 0);
          include_preprocessing = (range_arg state 1 \<noteq> 0)
      in timed_loop (max_iterations state) (sorting_body include_preprocessing)
           (state, iota count'))"

text \<open>
  The loop body of \<^verbatim>\<open>sorting_template\<close>: \<^verbatim>\<open>if constexpr\<close> leaves each of the two
  instances with its own code.
\<close>

fun sorting_template_body ::
  "bool \<Rightarrow> State \<times> 32 word list \<Rightarrow> error + State \<times> 32 word list"
where
  "sorting_template_body False (state, array) =
     (case PauseTiming state of
        Inl e \<Rightarrow> Inl e
      | Inr state1 \<Rightarrow>
          let array1 = rev array in
          (case ResumeTiming state1 of
             Inl e \<Rightarrow> Inl e
           | Inr state2 \<Rightarrow> Inr (state2, std_sort array1)))"
| "sorting_template_body True (state, array) =
     (let array1 = rev array in Inr (state, std_sort array1))"

definition sorting_template :: "bool \<Rightarrow> State \<Rightarrow> error + State \<times> 32 word list" where
  "sorting_template include_preprocessing_k state =
     (let count' = unat (range_arg state 0)
      in timed_loop (max_iterations state) (sorting_template_body include_preprocessing_k)
           (state, iota count'))"

section \<open>The cost of pausing\<close>

text \<open>
  \<^verbatim>\<open>int32_t a = std::rand(), c = 0;\<close> then, in the timed loop,
  \<^verbatim>\<open>state.PauseTiming(); ++a; state.ResumeTiming(); bm::DoNotOptimize(c += a);\<close>
\<close>

definition upper_cost_of_pausing_body ::
  "State \<times> 32 word \<times> 32 word \<Rightarrow> error + State \<times> 32 word \<times> 32 word"
where
  "upper_cost_of_pausing_body = (\<lambda>(state, a, c).
     case PauseTiming state of
       Inl e \<Rightarrow> Inl e
     | Inr state1 \<Rightarrow>
         let a1 = a + 1 in
         (case ResumeTiming state1 of
            Inl e \<Rightarrow> Inl e
          | Inr state2 \<Rightarrow> Inr (state2, a1, c + a1)))"

definition upper_cost_of_pausing ::
  "32 word \<Rightarrow> State \<Rightarrow> error + State \<times> 32 word \<times> 32 word"
where
  "upper_cost_of_pausing rand_a state =
     timed_loop (max_iterations state) upper_cost_of_pausing_body (state, rand_a, 0)"

section \<open>Sessions driven by balanced calls\<close>

text \<open>
  Modelled from the spec: a session in which every \<open>pause\<close> is answered by one
  \<open>resume\<close> before the next \<open>pause\<close> (the harness that drives a session is
  missing from the sources with the rest of the library). \<open>balanced_calls k\<close>
  makes \<open>k\<close> such pairs of calls; \<open>run_session\<close> starts a session, makes them
  and ends the session.
\<close>

fun balanced_calls :: "nat \<Rightarrow> State \<Rightarrow> error + State" where
  "balanced_calls 0 s = Inr s"
| "balanced_calls (Suc k) s =
     (case PauseTiming s of
        Inl e \<Rightarrow> Inl e
      | Inr s1 \<Rightarrow>
          (case ResumeTiming s1 of
             Inl e \<Rightarrow> Inl e
           | Inr s2 \<Rightarrow> balanced_calls k s2))"

definition run_session :: "(nat \<Rightarrow> int) \<Rightarrow> nat \<Rightarrow> error + int" where
  "run_session clk k =
     (case balanced_calls k (start_session clk 0 (\<lambda>i. 0)) of
        Inl e \<Rightarrow> Inl e
      | Inr s \<Rightarrow> finish_session s)"

text \<open>
  With \<open>k\<close> balanced pairs after the start, the clock readings \<open>2 * i + 1\<close> and
  \<open>2 * i + 2\<close> are those of the \<open>i\<close>-th \<open>pause\<close> and of its \<open>resume\<close>: the total
  length of the paused intervals.
\<close>

definition paused_total :: "(nat \<Rightarrow> int) \<Rightarrow> nat \<Rightarrow> int" where
  "paused_total clk k = (\<Sum>i<k. clk (2 * i + 2) - clk (2 * i + 1))"

section \<open>Auxiliary notions for the proofs\<close>

text \<open>The state after one accepted \<open>pause\<close> followed by one accepted \<open>resume\<close>.\<close>

definition pause_resume :: "State \<Rightarrow> State" where
  "pause_resume s =
     s\<lparr>elapsed_wall := elapsed_wall s + (clock s (reads s) - mark s),
       paused_duration := paused_duration s + (clock s (Suc (reads s)) - clock s (reads s)),
       mark := clock s (Suc (reads s)),
       reads := Suc (Suc (reads s)),
       trace := trace s @ [Pause, Resume]\<rparr>"

definition paused_between :: "State \<Rightarrow> nat \<Rightarrow> int" where
  "paused_between s n =
     (\<Sum>i<n. clock s (reads s + 2 * i + 1) - clock s (reads s + 2 * i))"

text \<open>
  What it means for a run that started in state \<open>s\<close> to have made \<open>k\<close> balanced
  pairs of calls and nothing else: it raised no error, the session is \<open>Running\<close>,
  the calls it accepted since \<open>s\<close> are \<open>k\<close> times a \<open>pause\<close> followed by a
  \<open>resume\<close>, and ending the session now is no usage error.
\<close>

definition balanced_after :: "State \<Rightarrow> nat \<Rightarrow> error + State \<times> 'v \<Rightarrow> bool" where
  "balanced_after s k res =
     (case res of
        Inl e \<Rightarrow> False
      | Inr (s', v) \<Rightarrow>
          phase s' = Running
          \<and> trace s' = trace s @ concat (replicate k [Pause, Resume])
          \<and> finish_session s' \<noteq> Inl UsageError)"

section \<open>Machine integers and the sorted array\<close>

lemma sint_word_of_int_64:
  "- (2 ^ 63) \<le> x \<Longrightarrow> x < 2 ^ 63 \<Longrightarrow> sint (word_of_int x :: 64 word) = x"
  by (simp add: sint_sbintrunc' signed_take_bit_int_eq_self)

lemma sint_word_of_int_32:
  "- (2 ^ 31) \<le> x \<Longrightarrow> x < 2 ^ 31 \<Longrightarrow> sint (word_of_int x :: 32 word) = x"
  by (simp add: sint_sbintrunc' signed_take_bit_int_eq_self)

lemma sint_rand_widened:
  fixes r :: "32 word"
  shows "sint (scast r :: 64 word) = sint r"
  by (simp add: sint_up_scast is_up)

lemma sint_plus_iterations:
  fixes b :: "64 word"
  assumes "0 \<le> sint b" "sint b + int k < 2 ^ 63"
  shows "sint (b + of_nat k) = sint b + int k"
proof -
  have "b + of_nat k = word_of_int (sint b + int k)"
    by simp
  moreover have "- (2 ^ 63) \<le> sint b + int k"
    using assms(1) by (simp add: order_trans [of "- (2 ^ 63)" 0])
  ultimately show ?thesis
    using assms(2) by (simp only: sint_word_of_int_64)
qed

lemma sint_iota_element:
  assumes "i < c" "c < 2 ^ 31"
  shows "sint (1 + of_nat i :: 32 word) = int (Suc i)"
proof -
  have "(1 + of_nat i :: 32 word) = word_of_int (int (Suc i))"
    by simp
  moreover have "int (Suc i) < 2 ^ 31"
    using assms by simp
  moreover have "- (2 ^ 31) \<le> int (Suc i)"
    by (simp add: order_trans [of "- (2 ^ 31)" 0])
  ultimately show ?thesis
    by (simp only: sint_word_of_int_32)
qed

lemma iota_sint:
  assumes "c < 2 ^ 31"
  shows "map sint (iota c) = map int [1..<Suc c]"
proof -
  have "map sint (iota c) = map (\<lambda>i. int (Suc i)) [0..<c]"
    using assms by (simp add: iota_def sint_iota_element)
  also have "\<dots> = map int (map Suc [0..<c])"
    by simp
  also have "map Suc [0..<c] = [1..<Suc c]"
    by (simp add: map_Suc_upt)
  finally show ?thesis .
qed

lemma std_sort_rev_iota:
  assumes "c < 2 ^ 31"
  shows "std_sort (rev (iota c)) = iota c"
  unfolding std_sort_def
proof (rule sort_key_inj_key_eq)
  show "mset (rev (iota c)) = mset (iota c)" by simp
  show "inj_on sint (set (rev (iota c)))"
    by (rule inj_onI) (rule signed_word_eqI)
  have "sorted (map int [1..<Suc c])"
    by (simp add: sorted_wrt_map del: upt_Suc)
  then show "sorted (map sint (iota c))"
    using assms by (simp only: iota_sint)
qed

section \<open>The timed loop and the session\<close>

lemma timed_loop_snoc:
  "timed_loop (Suc n) body sv =
     (case timed_loop n body sv of Inl e \<Rightarrow> Inl e | Inr sv' \<Rightarrow> body sv')"
proof (induction n arbitrary: sv)
  case 0
  show ?case by (simp split: sum.split)
next
  case (Suc n)
  show ?case
  proof (cases "body sv")
    case (Inl e)
    then show ?thesis by simp
  next
    case (Inr sv')
    have "timed_loop (Suc (Suc n)) body sv = timed_loop (Suc n) body sv'"
      using Inr by simp
    also have "\<dots> = (case timed_loop n body sv' of Inl e \<Rightarrow> Inl e | Inr sv'' \<Rightarrow> body sv'')"
      by (rule Suc.IH)
    also have "timed_loop n body sv' = timed_loop (Suc n) body sv"
      using Inr by simp
    finally show ?thesis .
  qed
qed

lemma timed_loop_funpow:
  assumes step: "\<And>s v. P s \<Longrightarrow> body (s, v) = Inr (f s, g v)"
    and pres: "\<And>s. P s \<Longrightarrow> P (f s)"
    and init: "P s"
  shows "timed_loop n body (s, v) = Inr ((f ^^ n) s, (g ^^ n) v) \<and> P ((f ^^ n) s)"
proof (induction n)
  case 0
  show ?case using init by simp
next
  case (Suc n)
  then show ?case
    by (simp only: timed_loop_snoc funpow.simps o_apply sum.case step pres)
qed

lemma pause_then_resume:
  assumes "phase s = Running"
  shows "\<exists>s1. PauseTiming s = Inr s1 \<and> ResumeTiming s1 = Inr (pause_resume s)"
  using assms by (simp add: PauseTiming_def ResumeTiming_def pause_resume_def)

lemma phase_pause_resume: "phase (pause_resume s) = phase s"
  by (simp add: pause_resume_def)

lemma pause_resume_rounds:
  "phase ((pause_resume ^^ n) s) = phase s
   \<and> clock ((pause_resume ^^ n) s) = clock s
   \<and> reads ((pause_resume ^^ n) s) = reads s + 2 * n
   \<and> trace ((pause_resume ^^ n) s) = trace s @ concat (replicate n [Pause, Resume])
   \<and> max_iterations ((pause_resume ^^ n) s) = max_iterations s
   \<and> range_arg ((pause_resume ^^ n) s) = range_arg s
   \<and> paused_duration ((pause_resume ^^ n) s) = paused_duration s + paused_between s n
   \<and> elapsed_wall ((pause_resume ^^ n) s) + (t - mark ((pause_resume ^^ n) s))
       = elapsed_wall s + (t - mark s) - paused_between s n"
proof (induction n)
  case 0
  show ?case by (simp add: paused_between_def)
next
  case (Suc n)
  have "replicate (Suc n) [Pause, Resume] = replicate n [Pause, Resume] @ [[Pause, Resume]]"
    by (simp add: replicate_append_same)
  then have rep: "concat (replicate (Suc n) [Pause, Resume])
      = concat (replicate n [Pause, Resume]) @ [Pause, Resume]"
    by (simp only: concat_append) simp
  show ?case
    using Suc
    by (simp add: pause_resume_def paused_between_def rep del: replicate_Suc)
qed

lemma sorting_body_paused:
  assumes "phase s = Running"
  shows "sorting_body False (s, array) = Inr (pause_resume s, std_sort (rev array))"
  using pause_then_resume [OF assms] by (auto simp add: sorting_body_def Let_def)

lemma sorting_body_timed:
  "sorting_body True (s, array) = Inr (s, std_sort (rev array))"
  by (simp add: sorting_body_def Let_def)

lemma sorting_template_body_paused:
  assumes "phase s = Running"
  shows "sorting_template_body False (s, array) = Inr (pause_resume s, std_sort (rev array))"
  using pause_then_resume [OF assms] by (auto simp add: Let_def)

lemma upper_cost_of_pausing_body_paused:
  assumes "phase s = Running"
  shows "upper_cost_of_pausing_body (s, v)
     = Inr (pause_resume s, (\<lambda>(a, c). (a + 1, c + (a + 1))) v)"
  using pause_then_resume [OF assms]
  by (cases v) (auto simp add: upper_cost_of_pausing_body_def Let_def)

lemma sorting_bodies_agree:
  "sorting_body k = sorting_template_body k"
proof (rule ext)
  fix sv :: "State \<times> 32 word list"
  obtain s array where sv: "sv = (s, array)" by (cases sv)
  show "sorting_body k sv = sorting_template_body k sv"
    by (cases k) (simp_all add: sv sorting_body_def Let_def split: sum.split)
qed

lemma sorted_array_fixed:
  assumes "c < 2 ^ 31"
  shows "((\<lambda>array. std_sort (rev array)) ^^ n) (iota c) = iota c"
  by (induction n) (simp_all add: std_sort_rev_iota [OF assms])

lemma running_not_usage_error:
  "phase s = Running \<Longrightarrow> finish_session s \<noteq> Inl UsageError"
  by (simp add: finish_session_def)

lemma paused_loop_balanced:
  assumes step: "\<And>s v. phase s = Running \<Longrightarrow> body (s, v) = Inr (pause_resume s, g v)"
    and run: "phase state = Running"
  shows "balanced_after state k (timed_loop k body (state, v))"
proof -
  have "timed_loop k body (state, v) = Inr ((pause_resume ^^ k) state, (g ^^ k) v)"
    using timed_loop_funpow [of "\<lambda>s. phase s = Running" body pause_resume g state k v]
      step run by (simp add: phase_pause_resume)
  moreover have "phase ((pause_resume ^^ k) state) = Running"
    using pause_resume_rounds [of k state] run by simp
  moreover have "trace ((pause_resume ^^ k) state)
      = trace state @ concat (replicate k [Pause, Resume])"
    using pause_resume_rounds [of k state] by simp
  ultimately show ?thesis
    by (simp add: balanced_after_def running_not_usage_error)
qed

lemma balanced_calls_rounds:
  "phase s = Running \<Longrightarrow> balanced_calls k s = Inr ((pause_resume ^^ k) s)"
proof (induction k arbitrary: s)
  case 0
  show ?case by simp
next
  case (Suc k)
  from pause_then_resume [OF Suc.prems] obtain s1 where
    s1: "PauseTiming s = Inr s1" "ResumeTiming s1 = Inr (pause_resume s)"
    by blast
  have "phase (pause_resume s) = Running"
    using Suc.prems by (simp add: phase_pause_resume)
  then have "balanced_calls k (pause_resume s) = Inr ((pause_resume ^^ k) (pause_resume s))"
    by (rule Suc.IH)
  then show ?case
    by (simp add: s1 funpow_swap1)
qed

lemma finish_after_rounds:
  assumes "s = start_session clk n args"
  shows "finish_session ((pause_resume ^^ k) s)
     = Inr (clk (2 * k + 1) - clk 0 - paused_total clk k)"
proof -
  let ?s' = "(pause_resume ^^ k) s"
  have s: "phase s = Running" "clock s = clk" "reads s = 1" "mark s = clk 0"
    "elapsed_wall s = 0"
    by (simp_all add: assms start_session_def)
  have between: "paused_between s k = paused_total clk k"
    by (simp add: paused_between_def paused_total_def s)
  have facts: "phase ?s' = Running" "clock ?s' = clk" "reads ?s' = 2 * k + 1"
    using pause_resume_rounds [of k s] s by simp_all
  have "elapsed_wall ?s' + (clk (2 * k + 1) - mark ?s')
      = elapsed_wall s + (clk (2 * k + 1) - mark s) - paused_between s k"
    using pause_resume_rounds [of k s "clk (2 * k + 1)"] by simp
  then show ?thesis
    by (simp add: finish_session_def facts s between)
qed

lemma i64_division_iterations:
  assumes "0 \<le> sint b" "sint b + int n < 2 ^ 63"
  shows "\<exists>c'. timed_loop n i64_division_body (s, a, b, c)
            = Inr (s, a + of_nat n, b + of_nat n, c')
          \<and> (0 < n \<longrightarrow> c' = sdiv64 (a + of_nat n) (b + of_nat n))"
  using assms
proof (induction n)
  case 0
  show ?case by simp
next
  case (Suc n)
  from Suc.prems have "sint b + int n < 2 ^ 63" by simp
  with Suc.IH Suc.prems(1) obtain c' where
    c': "timed_loop n i64_division_body (s, a, b, c)
           = Inr (s, a + of_nat n, b + of_nat n, c')"
    by blast
  have "sint (b + of_nat (Suc n)) = sint b + int (Suc n)"
    using Suc.prems by (rule sint_plus_iterations)
  then have "sint (b + of_nat (Suc n)) \<noteq> sint (0 :: 64 word)"
    using Suc.prems(1) by simp
  then have "b + of_nat (Suc n) \<noteq> 0"
    by (rule contrapos_nn) simp
  moreover have b: "b + of_nat n + 1 = b + of_nat (Suc n)"
    by simp
  ultimately have nz: "b + of_nat n + 1 \<noteq> 0"
    by metis
  have step: "i64_division_body (s, a + of_nat n, b + of_nat n, c')
      = Inr (s, a + of_nat n + 1, b + of_nat n + 1,
             sdiv64 (a + of_nat n + 1) (b + of_nat n + 1))"
    using nz by (simp add: i64_division_body_def Let_def)
  have a: "a + of_nat n + 1 = a + of_nat (Suc n)"
    by simp
  have "timed_loop (Suc n) i64_division_body (s, a, b, c)
      = Inr (s, a + of_nat (Suc n), b + of_nat (Suc n),
             sdiv64 (a + of_nat (Suc n)) (b + of_nat (Suc n)))"
    by (simp only: timed_loop_snoc c' sum.case step a b)
  then show ?case by simp
qed

lemma sorting_loop_array:
  assumes "phase state = Running" "c < 2 ^ 31"
  shows "\<exists>s'. timed_loop n (sorting_template_body k) (state, iota c) = Inr (s', iota c)"
proof (cases k)
  case True
  have "timed_loop n (sorting_template_body True) (state, iota c)
      = Inr ((id ^^ n) state, ((\<lambda>array. std_sort (rev array)) ^^ n) (iota c))"
    using timed_loop_funpow [of "\<lambda>s. True" "sorting_template_body True" id
        "\<lambda>array. std_sort (rev array)" state n "iota c"]
    by (simp add: Let_def)
  then show ?thesis
    using True by (simp add: sorted_array_fixed [OF assms(2)])
next
  case False
  have "timed_loop n (sorting_template_body False) (state, iota c)
      = Inr ((pause_resume ^^ n) state, ((\<lambda>array. std_sort (rev array)) ^^ n) (iota c))"
    using timed_loop_funpow [of "\<lambda>s. phase s = Running" "sorting_template_body False"
        pause_resume "\<lambda>array. std_sort (rev array)" state n "iota c"]
      sorting_template_body_paused assms(1) by (simp add: phase_pause_resume)
  then show ?thesis
    using False by (simp add: sorted_array_fixed [OF assms(2)])
qed

lemma sorting_body_array:
  "sorting_template_body k (s, array) = Inr (s', array') \<Longrightarrow> array' = std_sort (rev array)"
  by (cases k) (auto simp add: Let_def split: sum.splits)

section \<open>The claims\<close>

text \<open>
  C1. For every timing session and every sequence of balanced pause/resume
  calls, the elapsed time reported at the end of the session is the clock reading
  at the end minus the reading at the start minus the total length of the paused
  intervals, so that no paused interval is part of it. This holds of a session
  driven by \<open>k\<close> balanced pairs of calls, and of the sessions that the bodies
  \<^verbatim>\<open>upper_cost_of_pausing\<close> and \<^verbatim>\<open>sorting_template<false>\<close> drive over \<open>k\<close>
  iterations.
\<close>

theorem elapsed_excludes_paused_intervals:
  "run_session clk k = Inr (clk (2 * k + 1) - clk 0 - paused_total clk k)
   \<and> run_benchmark (upper_cost_of_pausing rand_a) clk k args
       = Inr (clk (2 * k + 1) - clk 0 - paused_total clk k)
   \<and> run_benchmark (sorting_template False) clk k args
       = Inr (clk (2 * k + 1) - clk 0 - paused_total clk k)"
proof -
  define s where "s = start_session clk k args"
  have run: "phase s = Running" and n: "max_iterations s = k"
    by (simp_all add: s_def start_session_def)
  have "phase (start_session clk 0 (\<lambda>i. 0)) = Running"
    by (simp add: start_session_def)
  then have 1: "run_session clk k = Inr (clk (2 * k + 1) - clk 0 - paused_total clk k)"
    by (simp only: run_session_def balanced_calls_rounds sum.case
        finish_after_rounds [OF refl])
  have "timed_loop k upper_cost_of_pausing_body (s, rand_a, 0)
      = Inr ((pause_resume ^^ k) s, ((\<lambda>(a, c). (a + 1, c + (a + 1))) ^^ k) (rand_a, 0))"
    using timed_loop_funpow [of "\<lambda>s. phase s = Running" upper_cost_of_pausing_body
        pause_resume _ s k "(rand_a, 0)"]
      upper_cost_of_pausing_body_paused run by (simp add: phase_pause_resume)
  then have 2: "run_benchmark (upper_cost_of_pausing rand_a) clk k args
       = Inr (clk (2 * k + 1) - clk 0 - paused_total clk k)"
    using finish_after_rounds [OF s_def, of k]
    by (simp add: run_benchmark_def upper_cost_of_pausing_def n flip: s_def)
  have "timed_loop k (sorting_template_body False) (s, xs)
      = Inr ((pause_resume ^^ k) s, ((\<lambda>array. std_sort (rev array)) ^^ k) xs)" for xs
    using timed_loop_funpow [of "\<lambda>s. phase s = Running" "sorting_template_body False"
        pause_resume _ s k xs]
      sorting_template_body_paused run by (simp add: phase_pause_resume)
  then have 3: "run_benchmark (sorting_template False) clk k args
       = Inr (clk (2 * k + 1) - clk 0 - paused_total clk k)"
    using finish_after_rounds [OF s_def, of k]
    by (simp add: run_benchmark_def sorting_template_def n flip: s_def)
  show ?thesis using 1 2 3 by simp
qed

theorem elapsed_excludes_paused_intervals_witness:
  "run_session (\<lambda>k. 10 * int k) 2 = Inr 30
   \<and> run_benchmark (upper_cost_of_pausing 5) (\<lambda>k. 10 * int k) 2 (\<lambda>i. 0) = Inr 30"
  using elapsed_excludes_paused_intervals [of "\<lambda>k. 10 * int k" 2 5 "\<lambda>i. 0"]
  by (simp add: paused_total_def eval_nat_numeral lessThan_Suc)

text \<open>
  C8. In the body of \<^verbatim>\<open>i64_division\<close> the divisor is at least 1 at every
  division: it starts from a result of \<^verbatim>\<open>std::rand()\<close>, which is not negative,
  and is incremented before each division, so that no iteration of the timed loop
  divides by zero. The iteration count is one for which the 64-bit divisor does
  not overflow: at most \<open>2 ^ 63 - 2 ^ 31\<close>.
\<close>

theorem i64_division_divisor_positive:
  assumes "0 \<le> sint rand_b" and "max_iterations state \<le> 2 ^ 63 - 2 ^ 31"
  shows "(\<exists>s a b c. i64_division rand_a rand_b state = Inr (s, a, b, c))
   \<and> (\<forall>k. 1 \<le> k \<and> k \<le> max_iterations state \<longrightarrow>
        (\<exists>s a b c.
           timed_loop k i64_division_body (state, scast rand_a, scast rand_b, 0)
             = Inr (s, a, b, c)
           \<and> sint b = sint rand_b + int k \<and> 1 \<le> sint b \<and> c = sdiv64 a b))"
proof -
  let ?b = "scast rand_b :: 64 word"
  have b0: "sint ?b = sint rand_b"
    by (rule sint_rand_widened)
  have small: "sint rand_b < 2 ^ 31"
    using sint_lt [of rand_b] by simp
  have bound: "sint ?b + int k < 2 ^ 63" if "k \<le> max_iterations state" for k
  proof -
    have "k \<le> 2 ^ 63 - 2 ^ 31" using that assms(2) by (rule order_trans)
    then have "int k \<le> int (2 ^ 63 - 2 ^ 31)"
      by (simp only: of_nat_le_iff)
    also have "int (2 ^ 63 - 2 ^ 31) = 2 ^ 63 - 2 ^ 31"
      by (simp add: of_nat_diff)
    finally show ?thesis using small b0 by simp
  qed
  have nonneg: "0 \<le> sint ?b" using assms(1) b0 by simp
  have iter: "\<exists>c'. timed_loop k i64_division_body (state, scast rand_a, ?b, 0)
            = Inr (state, scast rand_a + of_nat k, ?b + of_nat k, c')
          \<and> (0 < k \<longrightarrow> c' = sdiv64 (scast rand_a + of_nat k) (?b + of_nat k))"
    if "k \<le> max_iterations state" for k
    using nonneg bound [OF that] by (rule i64_division_iterations)
  have full: "\<exists>s a b c. i64_division rand_a rand_b state = Inr (s, a, b, c)"
    using iter [of "max_iterations state"] by (auto simp add: i64_division_def)
  have each: "\<exists>s a b c.
           timed_loop k i64_division_body (state, scast rand_a, scast rand_b, 0)
             = Inr (s, a, b, c)
           \<and> sint b = sint rand_b + int k \<and> 1 \<le> sint b \<and> c = sdiv64 a b"
    if k: "1 \<le> k" "k \<le> max_iterations state" for k
  proof -
    from iter [OF k(2)] k(1) obtain c' where
      "timed_loop k i64_division_body (state, scast rand_a, ?b, 0)
            = Inr (state, scast rand_a + of_nat k, ?b + of_nat k, c')"
      "c' = sdiv64 (scast rand_a + of_nat k) (?b + of_nat k)"
      by auto
    moreover have "sint (?b + of_nat k) = sint rand_b + int k"
      using sint_plus_iterations [OF nonneg bound [OF k(2)]] b0 by simp
    moreover have "1 \<le> sint rand_b + int k"
      using assms(1) k(1) by simp
    ultimately show ?thesis by simp
  qed
  show ?thesis using full each by blast
qed

theorem i64_division_divisor_positive_witness:
  "0 \<le> sint (0 :: 32 word)
   \<and> max_iterations (start_session (\<lambda>k. 10 * int k) 2 (\<lambda>i. if i = 0 then 3 else 0)) \<le> 2 ^ 63 - 2 ^ 31
   \<and> i64_division 7 0 (start_session (\<lambda>k. 10 * int k) 2 (\<lambda>i. if i = 0 then 3 else 0)) = Inr ((start_session (\<lambda>k. 10 * int k) 2 (\<lambda>i. if i = 0 then 3 else 0)), 9, 2, 4)
   \<and> (\<exists>s a b c.
         timed_loop 1 i64_division_body ((start_session (\<lambda>k. 10 * int k) 2 (\<lambda>i. if i = 0 then 3 else 0)), scast (7 :: 32 word), scast (0 :: 32 word), 0)
           = Inr (s, a, b, c)
         \<and> sint b = sint (0 :: 32 word) + int 1 \<and> 1 \<le> sint b \<and> c = sdiv64 a b)"
proof -
  have h1: "0 \<le> sint (0 :: 32 word)"
    by simp
  have h2: "max_iterations (start_session (\<lambda>k. 10 * int k) 2 (\<lambda>i. if i = 0 then 3 else 0)) \<le> 2 ^ 63 - 2 ^ 31"
    by (simp add: start_session_def)
  have k: "1 \<le> (1 :: nat) \<and> 1 \<le> max_iterations (start_session (\<lambda>k. 10 * int k) 2 (\<lambda>i. if i = 0 then 3 else 0))"
    by (simp add: start_session_def)
  have "\<exists>s a b c.
         timed_loop 1 i64_division_body ((start_session (\<lambda>k. 10 * int k) 2 (\<lambda>i. if i = 0 then 3 else 0)), scast (7 :: 32 word), scast (0 :: 32 word), 0)
           = Inr (s, a, b, c)
         \<and> sint b = sint (0 :: 32 word) + int 1 \<and> 1 \<le> sint b \<and> c = sdiv64 a b"
    using i64_division_divisor_positive [OF h1 h2, of 7] k by blast
  moreover have "i64_division 7 0 (start_session (\<lambda>k. 10 * int k) 2 (\<lambda>i. if i = 0 then 3 else 0)) = Inr ((start_session (\<lambda>k. 10 * int k) 2 (\<lambda>i. if i = 0 then 3 else 0)), 9, 2, 4)"
    by (simp add: i64_division_def i64_division_body_def start_session_def
        eval_nat_numeral sdiv64_def signed_divide_int_def Let_def)
  ultimately show ?thesis
    using h1 h2 by blast
qed

text \<open>
  C9. In every body that pauses the timing (\<^verbatim>\<open>sorting\<close> with
  \<^verbatim>\<open>include_preprocessing\<close> false, \<^verbatim>\<open>sorting_template<false>\<close> and
  \<^verbatim>\<open>upper_cost_of_pausing\<close>) every \<open>pause\<close> is followed by exactly one \<open>resume\<close>
  in the same iteration, before any other \<open>pause\<close>: started on a \<open>Running\<close>
  session, after any number \<open>k\<close> of iterations, and at the end of the whole run,
  the body has raised no usage error, the session is \<open>Running\<close>, the calls it
  accepted are \<open>k\<close> times a \<open>pause\<close> followed by a \<open>resume\<close>, and ending the
  session is no usage error.
\<close>

theorem pausing_bodies_stay_balanced:
  assumes "phase state = Running"
  shows "balanced_after state k (timed_loop k (sorting_body False) (state, array))
   \<and> balanced_after state k (timed_loop k (sorting_template_body False) (state, array))
   \<and> balanced_after state k (timed_loop k upper_cost_of_pausing_body (state, a, c))
   \<and> (range_arg state 1 = 0 \<longrightarrow> balanced_after state (max_iterations state) (sorting state))
   \<and> balanced_after state (max_iterations state) (sorting_template False state)
   \<and> balanced_after state (max_iterations state) (upper_cost_of_pausing rand_a state)"
proof -
  have sorting_loop: "balanced_after state n (timed_loop n (sorting_body False) (state, xs))"
    for n xs
    using sorting_body_paused assms by (rule paused_loop_balanced)
  have template_loop:
    "balanced_after state n (timed_loop n (sorting_template_body False) (state, xs))"
    for n xs
    using sorting_template_body_paused assms by (rule paused_loop_balanced)
  have pausing_loop:
    "balanced_after state n (timed_loop n upper_cost_of_pausing_body (state, v))"
    for n v
    using upper_cost_of_pausing_body_paused assms by (rule paused_loop_balanced)
  show ?thesis
    by (simp add: sorting_def sorting_template_def upper_cost_of_pausing_def
        sorting_loop template_loop pausing_loop)
qed

theorem pausing_bodies_stay_balanced_witness:
  "phase (start_session (\<lambda>k. 10 * int k) 2 (\<lambda>i. if i = 0 then 3 else 0)) = Running
   \<and> range_arg (start_session (\<lambda>k. 10 * int k) 2 (\<lambda>i. if i = 0 then 3 else 0)) 1 = 0
   \<and> balanced_after (start_session (\<lambda>k. 10 * int k) 2 (\<lambda>i. if i = 0 then 3 else 0)) (max_iterations (start_session (\<lambda>k. 10 * int k) 2 (\<lambda>i. if i = 0 then 3 else 0))) (sorting (start_session (\<lambda>k. 10 * int k) 2 (\<lambda>i. if i = 0 then 3 else 0)))
   \<and> balanced_after (start_session (\<lambda>k. 10 * int k) 2 (\<lambda>i. if i = 0 then 3 else 0)) (max_iterations (start_session (\<lambda>k. 10 * int k) 2 (\<lambda>i. if i = 0 then 3 else 0))) (sorting_template False (start_session (\<lambda>k. 10 * int k) 2 (\<lambda>i. if i = 0 then 3 else 0)))
   \<and> balanced_after (start_session (\<lambda>k. 10 * int k) 2 (\<lambda>i. if i = 0 then 3 else 0)) (max_iterations (start_session (\<lambda>k. 10 * int k) 2 (\<lambda>i. if i = 0 then 3 else 0))) (upper_cost_of_pausing 5 (start_session (\<lambda>k. 10 * int k) 2 (\<lambda>i. if i = 0 then 3 else 0)))
   \<and> upper_cost_of_pausing 5 (start_session (\<lambda>k. 10 * int k) 2 (\<lambda>i. if i = 0 then 3 else 0))
       = Inr (\<lparr>phase = Running, elapsed_wall = 20, paused_duration = 20, mark = 40,
               clock = \<lambda>k. 10 * int k, reads = 5,
               trace = [Pause, Resume, Pause, Resume], max_iterations = 2,
               range_arg = \<lambda>i. if i = 0 then 3 else 0\<rparr>, 7, 13)"
proof -
  have h: "phase (start_session (\<lambda>k. 10 * int k) 2 (\<lambda>i. if i = 0 then 3 else 0)) = Running"
    by (simp add: start_session_def)
  have r: "range_arg (start_session (\<lambda>k. 10 * int k) 2 (\<lambda>i. if i = 0 then 3 else 0)) 1 = 0"
    by (simp add: start_session_def)
  have "upper_cost_of_pausing 5 (start_session (\<lambda>k. 10 * int k) 2 (\<lambda>i. if i = 0 then 3 else 0))
       = Inr (\<lparr>phase = Running, elapsed_wall = 20, paused_duration = 20, mark = 40,
               clock = \<lambda>k. 10 * int k, reads = 5,
               trace = [Pause, Resume, Pause, Resume], max_iterations = 2,
               range_arg = \<lambda>i. if i = 0 then 3 else 0\<rparr>, 7, 13)"
    by (simp add: upper_cost_of_pausing_def upper_cost_of_pausing_body_def
        start_session_def PauseTiming_def ResumeTiming_def Let_def eval_nat_numeral)
  then show ?thesis
    using pausing_bodies_stay_balanced [OF h, of 0 "[]" 0 0 5] h r by blast
qed

text \<open>
  C10. For the same element count and the same preprocessing flag, the body of
  \<^verbatim>\<open>sorting\<close> (flag read from \<^verbatim>\<open>state.range(1)\<close> at run time) and the body of
  \<^verbatim>\<open>sorting_template\<close> (flag fixed at compile time) do the same in every
  iteration: they give the same result on every state and array, the whole runs
  agree, each iteration replaces the array by the sorted reverse of itself, and
  after any number of iterations the array is the one the run started from, the
  ascending sequence \<open>1..count\<close>. The last part is for a count that the
  \<^verbatim>\<open>int32_t\<close> elements can hold, below \<open>2 ^ 31\<close>, and a run started on a
  \<open>Running\<close> session.
\<close>

theorem sorting_agrees_with_sorting_template:
  "sorting_body k sv = sorting_template_body k sv
   \<and> (k = (range_arg state 1 \<noteq> 0) \<longrightarrow> sorting state = sorting_template k state)
   \<and> (sorting_body k (s, array) = Inr (s', array') \<longrightarrow> array' = std_sort (rev array))
   \<and> (sorting_template_body k (s, array) = Inr (s', array') \<longrightarrow>
        array' = std_sort (rev array))
   \<and> (phase state = Running \<and> c < 2 ^ 31 \<longrightarrow>
        (\<exists>s1. timed_loop n (sorting_body k) (state, iota c) = Inr (s1, iota c))
        \<and> (\<exists>s2. timed_loop n (sorting_template_body k) (state, iota c) = Inr (s2, iota c))
        \<and> map sint (iota c) = map int [1..<Suc c])"
proof -
  have 1: "sorting_body k sv = sorting_template_body k sv"
    by (simp add: sorting_bodies_agree)
  have 2: "sorting state = sorting_template k state" if "k = (range_arg state 1 \<noteq> 0)"
    using that by (simp add: sorting_def sorting_template_def sorting_bodies_agree)
  have 3: "array' = std_sort (rev array)"
    if "sorting_template_body k (s, array) = Inr (s', array')"
    using that by (rule sorting_body_array)
  have 4: "\<exists>s2. timed_loop n (sorting_template_body k) (state, iota c) = Inr (s2, iota c)"
    if "phase state = Running" "c < 2 ^ 31"
    using that by (rule sorting_loop_array)
  show ?thesis
    using 2 3 4 by (auto simp add: sorting_bodies_agree iota_sint)
qed

theorem sorting_agrees_with_sorting_template_witness:
  "False = (range_arg (start_session (\<lambda>k. 10 * int k) 2 (\<lambda>i. if i = 0 then 3 else 0)) 1 \<noteq> 0)
   \<and> sorting (start_session (\<lambda>k. 10 * int k) 2 (\<lambda>i. if i = 0 then 3 else 0)) = sorting_template False (start_session (\<lambda>k. 10 * int k) 2 (\<lambda>i. if i = 0 then 3 else 0))
   \<and> phase (start_session (\<lambda>k. 10 * int k) 2 (\<lambda>i. if i = 0 then 3 else 0)) = Running \<and> (3 :: nat) < 2 ^ 31
   \<and> (\<exists>s1. timed_loop 2 (sorting_body False) ((start_session (\<lambda>k. 10 * int k) 2 (\<lambda>i. if i = 0 then 3 else 0)), iota 3) = Inr (s1, iota 3))
   \<and> (\<exists>s2. timed_loop 2 (sorting_template_body False) ((start_session (\<lambda>k. 10 * int k) 2 (\<lambda>i. if i = 0 then 3 else 0)), iota 3) = Inr (s2, iota 3))
   \<and> map sint (iota 3) = map int [1..<Suc 3]
   \<and> iota 3 = [1, 2, 3]"
proof -
  have h: "False = (range_arg (start_session (\<lambda>k. 10 * int k) 2 (\<lambda>i. if i = 0 then 3 else 0)) 1 \<noteq> 0)"
    by (simp add: start_session_def)
  have p: "phase (start_session (\<lambda>k. 10 * int k) 2 (\<lambda>i. if i = 0 then 3 else 0)) = Running \<and> (3 :: nat) < 2 ^ 31"
    by (simp add: start_session_def)
  have i: "iota 3 = [1, 2, 3]"
    by (simp add: iota_def eval_nat_numeral)
  show ?thesis
    using sorting_agrees_with_sorting_template
      [of False "(start_session (\<lambda>k. 10 * int k) 2 (\<lambda>i. if i = 0 then 3 else 0), [])" "start_session (\<lambda>k. 10 * int k) 2 (\<lambda>i. if i = 0 then 3 else 0)" "start_session (\<lambda>k. 10 * int k) 2 (\<lambda>i. if i = 0 then 3 else 0)" "[]" "start_session (\<lambda>k. 10 * int k) 2 (\<lambda>i. if i = 0 then 3 else 0)" "[]" 3 2] h p i
    by blast
qed

end
